theory Spec2Isabelle
  imports Complex_Main
begin

section \<open>Data model\<close>

text \<open>
  The program is a single React component (the chaos game on an equilateral triangle,
  with a pan/zoom viewport and a timer-paced animation). Its \<open>number\<close> values are read
  as real numbers: rounding of binary64 arithmetic is not part of this model. The one
  place where the finite range of binary64 is written out is \<open>Math.pow\<close> (see
  \<open>Math_pow\<close> below), whose underflow to zero decides what a zoom can store.

  \<open>Point\<close> is \<open>{x, y}\<close> and \<open>Viewport\<close> is \<open>{x, y, scale}\<close> in \<open>types.ts\<close>; the field
  names carry a prefix here, since a record field is a constant of the theory.
\<close>

record Point =
  px :: real
  py :: real

record Viewport =
  vx :: real
  vy :: real
  scale :: real

type_synonym Triangle = "Point \<times> Point \<times> Point"

definition VERTICES :: Triangle where
  "VERTICES = (\<lparr>px = 0, py = 0\<rparr>, \<lparr>px = 1, py = 0\<rparr>, \<lparr>px = 0.5, py = sqrt 0.75\<rparr>)"

definition INITIAL_VIEWPORT_PADDING :: real where
  "INITIAL_VIEWPORT_PADDING = 1.1"

section \<open>Geometry and initial viewport\<close>

definition getInitialViewport :: "real \<Rightarrow> real \<Rightarrow> Viewport" where
  "getInitialViewport width height =
     (let triangleWidth = 1;
          triangleHeight = sqrt 0.75;
          triangleCenterX = 0.5;
          triangleCenterY = triangleHeight / 2;
          scaleX = width / (triangleWidth * INITIAL_VIEWPORT_PADDING);
          scaleY = height / (triangleHeight * INITIAL_VIEWPORT_PADDING)
      in \<lparr>vx = triangleCenterX, vy = triangleCenterY, scale = min scaleX scaleY\<rparr>)"

text \<open>
  \<open>isPointInTriangle\<close>: the three cross products \<open>d1\<close>, \<open>d2\<close>, \<open>d3\<close> of the source, then
  \<open>!(has_neg && has_pos)\<close>.
\<close>

definition edge_d1 :: "Point \<Rightarrow> Triangle \<Rightarrow> real" where
  "edge_d1 p vertices = (case vertices of (v1, v2, v3) \<Rightarrow>
     (px p - px v2) * (py v1 - py v2) - (px v1 - px v2) * (py p - py v2))"

definition edge_d2 :: "Point \<Rightarrow> Triangle \<Rightarrow> real" where
  "edge_d2 p vertices = (case vertices of (v1, v2, v3) \<Rightarrow>
     (px p - px v3) * (py v2 - py v3) - (px v2 - px v3) * (py p - py v3))"

definition edge_d3 :: "Point \<Rightarrow> Triangle \<Rightarrow> real" where
  "edge_d3 p vertices = (case vertices of (v1, v2, v3) \<Rightarrow>
     (px p - px v1) * (py v3 - py v1) - (px v3 - px v1) * (py p - py v1))"

definition isPointInTriangle :: "Point \<Rightarrow> Triangle \<Rightarrow> bool" where
  "isPointInTriangle p vertices =
     (let d1 = edge_d1 p vertices;
          d2 = edge_d2 p vertices;
          d3 = edge_d3 p vertices;
          has_neg = (d1 < 0 \<or> d2 < 0 \<or> d3 < 0);
          has_pos = (d1 > 0 \<or> d2 > 0 \<or> d3 > 0)
      in \<not> (has_neg \<and> has_pos))"


text \<open>
  \<open>getInitialPoint\<close>: two draws of \<open>Math.random()\<close>, reflected into the simplex, then
  the barycentric combination of the three vertices. The random source is the sequence
  of values that the successive calls of \<open>Math.random()\<close> return; a function that
  draws returns the rest of the sequence with its result.
\<close>

type_synonym rng = "nat \<Rightarrow> real"

definition drop_rng :: "nat \<Rightarrow> rng \<Rightarrow> rng" where
  "drop_rng k g = (\<lambda>i. g (i + k))"

definition getInitialPoint :: "rng \<Rightarrow> Point \<times> rng" where
  "getInitialPoint g =
     (let s0 = g 0;
          t0 = g 1;
          s = (if s0 + t0 > 1 then 1 - s0 else s0);
          t = (if s0 + t0 > 1 then 1 - t0 else t0)
      in case VERTICES of (v0, v1, v2) \<Rightarrow>
           (\<lparr>px = px v0 * (1 - s - t) + px v1 * s + px v2 * t,
             py = py v0 * (1 - s - t) + py v1 * s + py v2 * t\<rparr>,
            drop_rng 2 g))"

section \<open>Component state\<close>

record AnimationStep =
  currentPoint :: Point
  targetVertex :: Point
  newPoint :: Point

record HighlightedVertex =
  vertex :: Point
  life :: int

text \<open>
  The canvas element, as far as the component reads it: the size of its drawing buffer
  (\<open>canvas.width\<close>, \<open>canvas.height\<close>) and its bounding client rectangle.
\<close>

record Canvas =
  cwidth :: real
  cheight :: real
  rect_left :: real
  rect_top :: real
  rect_width :: real
  rect_height :: real

text \<open>
  A pending \<open>window.setTimeout(() => step(count + 1), 100)\<close>: its handle, its delay in
  milliseconds, and what the callback's closure holds: the argument of \<open>step\<close> and the
  value of the run's variable \<open>localCurrent\<close>, which nothing but the callbacks of that
  run reads or writes.
\<close>

record Timer =
  timer_id :: nat
  timer_delay :: nat
  timer_count :: nat
  timer_local :: Point

datatype PointsPerClick = N100 | N1000 | N10000

fun clicks :: "PointsPerClick \<Rightarrow> nat" where
  "clicks N100 = 100"
| "clicks N1000 = 1000"
| "clicks N10000 = 10000"

text \<open>
  The state of \<open>App\<close>: its \<open>useState\<close> values and refs, and of the environment the
  pending timers and the next timer handle. \<open>setPointsCalls\<close> counts the calls of
  \<open>setPoints\<close>, the updates of the point collection that the render surface sees.
\<close>

record AppState =
  points :: "Point list"
  currentPointRef :: Point
  viewport :: Viewport
  isDragging :: bool
  dragStartRef :: Point
  pointsPerClick :: PointsPerClick
  isAnimationMode :: bool
  isGenerating :: bool
  animationStep :: "AnimationStep option"
  highlightedVertices :: "HighlightedVertex list"
  animationTimeoutRef :: "nat option"
  canvasRef :: "Canvas option"
  timers :: "Timer list"
  nextTimerId :: nat
  setPointsCalls :: nat

section \<open>Seed reacquisition\<close>

definition isPointInView :: "real \<Rightarrow> real \<Rightarrow> real \<Rightarrow> real \<Rightarrow> Point \<Rightarrow> bool" where
  "isPointInView xMin xMax yMin yMax p =
     (px p \<ge> xMin \<and> px p \<le> xMax \<and> py p \<ge> yMin \<and> py p \<le> yMax)"

text \<open>
  The rejection loop \<open>for (let i = 0; i < 100; i++)\<close> of \<open>findSeedPoint\<close>: \<open>Some p\<close> is the
  early \<open>return randomPointInView\<close>, \<open>None\<close> is leaving the loop after 100 rejections.
\<close>

function findSeedLoop :: "nat \<Rightarrow> real \<Rightarrow> real \<Rightarrow> real \<Rightarrow> real \<Rightarrow> rng \<Rightarrow> Point option \<times> rng" where
  "findSeedLoop i xMin yMin worldWidth worldHeight g =
     (if i < 100 then
        (let randomPointInView = \<lparr>px = xMin + g 0 * worldWidth, py = yMin + g 1 * worldHeight\<rparr>
         in if isPointInTriangle randomPointInView VERTICES
            then (Some randomPointInView, drop_rng 2 g)
            else findSeedLoop (i + 1) xMin yMin worldWidth worldHeight (drop_rng 2 g))
      else (None, g))"
  by pat_completeness auto
termination
  by (relation "measure (\<lambda>(i, xMin, yMin, worldWidth, worldHeight, g). 100 - i)") auto

declare findSeedLoop.simps [simp del]

definition findSeedPoint :: "Canvas option \<Rightarrow> Viewport \<Rightarrow> Point list \<Rightarrow> Point \<Rightarrow> rng \<Rightarrow> Point \<times> rng" where
  "findSeedPoint canvas vp pts current g =
     (case canvas of
        None \<Rightarrow> getInitialPoint g
      | Some c \<Rightarrow>
          (let worldWidth = cwidth c / scale vp;
               worldHeight = cheight c / scale vp;
               xMin = vx vp - worldWidth / 2;
               xMax = vx vp + worldWidth / 2;
               yMin = vy vp - worldHeight / 2;
               yMax = vy vp + worldHeight / 2
           in if length pts = 0 \<or> \<not> isPointInView xMin xMax yMin yMax current
              then (case findSeedLoop 0 xMin yMin worldWidth worldHeight g of
                      (Some p, g') \<Rightarrow> (p, g')
                    | (None, g') \<Rightarrow> getInitialPoint g')
              else (current, g)))"

section \<open>The chaos game step and batch generation\<close>

text \<open>
  \<open>VERTICES[i]\<close> for a number \<open>i\<close>: the element, or \<open>undefined\<close> (here \<open>None\<close>) outside
  the tuple. Reading \<open>.x\<close> of \<open>undefined\<close> throws a TypeError, which nothing catches:
  the functions below return \<open>None\<close> for it.
\<close>

definition vertexAt :: "Triangle \<Rightarrow> int \<Rightarrow> Point option" where
  "vertexAt vertices i = (case vertices of (v0, v1, v2) \<Rightarrow>
     if i = 0 then Some v0 else if i = 1 then Some v1 else if i = 2 then Some v2 else None)"

definition nextPoint :: "Point \<Rightarrow> Point \<Rightarrow> Point" where
  "nextPoint current tv = \<lparr>px = (px current + px tv) / 2, py = (py current + py tv) / 2\<rparr>"

text \<open>
  The two lines that \<open>generateInstantly\<close> (256-260) and \<open>step\<close> (283-287) share: draw the
  target vertex, take the point halfway to it. The result is the target vertex, the new
  point and the rest of the random source.
\<close>

definition chaosStep :: "Point \<Rightarrow> rng \<Rightarrow> (Point \<times> Point \<times> rng) option" where
  "chaosStep current g =
     (case vertexAt VERTICES \<lfloor>g 0 * 3\<rfloor> of
        None \<Rightarrow> None
      | Some tv \<Rightarrow> Some (tv, nextPoint current tv, drop_rng 1 g))"

function genLoop :: "nat \<Rightarrow> nat \<Rightarrow> Point \<Rightarrow> Point list \<Rightarrow> rng \<Rightarrow> (Point list \<times> Point \<times> rng) option" where
  "genLoop i n current newPoints g =
     (if i < n then
        (case chaosStep current g of
           None \<Rightarrow> None
         | Some (tv, np, g') \<Rightarrow> genLoop (i + 1) n np (newPoints @ [np]) g')
      else Some (newPoints, current, g))"
  by pat_completeness auto
termination
  by (relation "measure (\<lambda>(i, n, current, newPoints, g). n - i)") auto

declare genLoop.simps [simp del]

definition generateInstantly :: "AppState \<Rightarrow> rng \<Rightarrow> (AppState \<times> rng) option" where
  "generateInstantly s g =
     (case findSeedPoint (canvasRef s) (viewport s) (points s) (currentPointRef s) g of
        (seed, g1) \<Rightarrow>
          (case genLoop 0 (clicks (pointsPerClick s)) seed [] g1 of
             None \<Rightarrow> None
           | Some (newPoints, current, g2) \<Rightarrow>
               Some (s\<lparr>currentPointRef := current,
                        points := points s @ newPoints,
                        setPointsCalls := setPointsCalls s + 1\<rparr>, g2)))"

section \<open>Animated generation\<close>

definition highlightTick :: "Point \<Rightarrow> HighlightedVertex list \<Rightarrow> HighlightedVertex list" where
  "highlightTick tv prev =
     filter (\<lambda>h. life h > 0)
       (map (\<lambda>h. h\<lparr>life := life h - 1\<rparr>) (\<lparr>vertex = tv, life = 5\<rparr> # prev))"

text \<open>
  \<open>step(count)\<close> of \<open>animateGeneration\<close>, with the closure's \<open>localCurrent\<close> as an argument.
  \<open>window.setTimeout\<close> returns a fresh handle and adds the callback to the pending timers.
\<close>

definition step :: "nat \<Rightarrow> Point \<Rightarrow> AppState \<Rightarrow> rng \<Rightarrow> (AppState \<times> rng) option" where
  "step count localCurrent s g =
     (if count \<ge> 100 then
        Some (s\<lparr>isGenerating := False,
                 animationStep := None,
                 highlightedVertices := [],
                 currentPointRef := localCurrent\<rparr>, g)
      else
        (case chaosStep localCurrent g of
           None \<Rightarrow> None
         | Some (tv, np, g') \<Rightarrow>
             Some (s\<lparr>animationStep :=
                        Some \<lparr>currentPoint = localCurrent, targetVertex = tv, newPoint = np\<rparr>,
                      highlightedVertices := highlightTick tv (highlightedVertices s),
                      points := points s @ [np],
                      setPointsCalls := setPointsCalls s + 1,
                      animationTimeoutRef := Some (nextTimerId s),
                      timers := timers s @
                        [\<lparr>timer_id = nextTimerId s, timer_delay = 100,
                          timer_count = count + 1, timer_local = np\<rparr>],
                      nextTimerId := nextTimerId s + 1\<rparr>, g')))"

definition animateGeneration :: "AppState \<Rightarrow> rng \<Rightarrow> (AppState \<times> rng) option" where
  "animateGeneration s g =
     (let s1 = s\<lparr>isGenerating := True, animationStep := None\<rparr>
      in case findSeedPoint (canvasRef s) (viewport s) (points s) (currentPointRef s) g of
           (localCurrent, g1) \<Rightarrow> step 0 localCurrent s1 g1)"

definition handleGeneratePoints :: "AppState \<Rightarrow> rng \<Rightarrow> (AppState \<times> rng) option" where
  "handleGeneratePoints s g =
     (if isAnimationMode s then animateGeneration s g else generateInstantly s g)"

text \<open>
  The event loop runs the callback of a pending timer once its delay has passed: the
  timer leaves the pending ones and \<open>step\<close> runs in the state of that moment. With no
  pending timer nothing happens. \<open>fireN k\<close> lets \<open>k\<close> timers expire in turn.
\<close>

definition fire :: "AppState \<Rightarrow> rng \<Rightarrow> (AppState \<times> rng) option" where
  "fire s g =
     (case timers s of
        [] \<Rightarrow> Some (s, g)
      | t # ts \<Rightarrow> step (timer_count t) (timer_local t) (s\<lparr>timers := ts\<rparr>) g)"

fun fireN :: "nat \<Rightarrow> AppState \<Rightarrow> rng \<Rightarrow> (AppState \<times> rng) option" where
  "fireN 0 s g = Some (s, g)"
| "fireN (Suc k) s g = (case fire s g of None \<Rightarrow> None | Some (s', g') \<Rightarrow> fireN k s' g')"

section \<open>Reset\<close>

text \<open>
  \<open>if (animationTimeoutRef.current)\<close> is false for \<open>null\<close> and for the number 0.
  \<open>clearTimeout\<close> removes the timer of that handle, if it is still pending.
\<close>

definition truthy :: "nat option \<Rightarrow> bool" where
  "truthy r = (case r of None \<Rightarrow> False | Some n \<Rightarrow> n \<noteq> 0)"

definition clearTimeout :: "nat option \<Rightarrow> AppState \<Rightarrow> AppState" where
  "clearTimeout r s =
     (case r of None \<Rightarrow> s | Some n \<Rightarrow> s\<lparr>timers := filter (\<lambda>t. timer_id t \<noteq> n) (timers s)\<rparr>)"

text \<open>The first statement of \<open>reset\<close> (lines 94-97).\<close>

definition cancelPending :: "AppState \<Rightarrow> AppState" where
  "cancelPending s =
     (if truthy (animationTimeoutRef s)
      then (clearTimeout (animationTimeoutRef s) s)\<lparr>animationTimeoutRef := None\<rparr>
      else s)"

text \<open>The rest of \<open>reset\<close> (lines 99-112).\<close>

definition resetState :: "AppState \<Rightarrow> rng \<Rightarrow> AppState \<times> rng" where
  "resetState s g =
     (let s1 = (case canvasRef s of
                  None \<Rightarrow> s
                | Some canvas \<Rightarrow>
                    if rect_width canvas > 0 \<and> rect_height canvas > 0
                    then s\<lparr>viewport := getInitialViewport (rect_width canvas) (rect_height canvas)\<rparr>
                    else s);
          s2 = s1\<lparr>points := [], setPointsCalls := setPointsCalls s1 + 1\<rparr>
      in case getInitialPoint g of
           (p, g') \<Rightarrow>
             (s2\<lparr>currentPointRef := p,
                 isGenerating := False,
                 animationStep := None,
                 highlightedVertices := []\<rparr>, g'))"

definition reset :: "AppState \<Rightarrow> rng \<Rightarrow> AppState \<times> rng" where
  "reset s g = resetState (cancelPending s) g"

section \<open>Viewport operations\<close>







definition handleMouseDown :: "AppState \<Rightarrow> real \<Rightarrow> real \<Rightarrow> AppState" where
  "handleMouseDown s clientX clientY =
     s\<lparr>isDragging := True, dragStartRef := \<lparr>px = clientX, py = clientY\<rparr>\<rparr>"

definition handleMouseUp :: "AppState \<Rightarrow> AppState" where
  "handleMouseUp s = s\<lparr>isDragging := False\<rparr>"




text \<open>
  The state of the component when it is first rendered, before any layout. Timer handles
  are positive integers, so the first one is 1.
\<close>

definition initialState :: "Canvas option \<Rightarrow> rng \<Rightarrow> AppState \<times> rng" where
  "initialState canvas g =
     (case getInitialPoint g of
        (p, g') \<Rightarrow>
          (\<lparr>points = [], currentPointRef = p,
            viewport = \<lparr>vx = 0.5, vy = 0.433, scale = 1\<rparr>,
            isDragging = False, dragStartRef = \<lparr>px = 0, py = 0\<rparr>,
            pointsPerClick = N100, isAnimationMode = False, isGenerating = False,
            animationStep = None, highlightedVertices = [],
            animationTimeoutRef = None, canvasRef = canvas,
            timers = [], nextTimerId = 1, setPointsCalls = 0\<rparr>, g'))"


section \<open>Notions the properties are stated with\<close>

text \<open>
  The candidate that the \<open>j\<close>-th iteration of the rejection loop draws, counted from a
  random source \<open>g\<close>: each iteration takes two draws, the first for \<open>x\<close>.
\<close>

definition candidate :: "real \<Rightarrow> real \<Rightarrow> real \<Rightarrow> real \<Rightarrow> rng \<Rightarrow> nat \<Rightarrow> Point" where
  "candidate xMin yMin worldWidth worldHeight g j =
     \<lparr>px = xMin + g (2 * j) * worldWidth, py = yMin + g (2 * j + 1) * worldHeight\<rparr>"

text \<open>
  The specification's batch: \<open>n\<close> steps from a seed, each from the point the one before
  produced, collecting the new points in the order of generation.
\<close>

fun chaosOrbit :: "nat \<Rightarrow> Point \<Rightarrow> rng \<Rightarrow> Point list" where
  "chaosOrbit 0 current g = []"
| "chaosOrbit (Suc n) current g =
     (case chaosStep current g of
        None \<Rightarrow> []
      | Some (tv, np, g') \<Rightarrow> np # chaosOrbit n np g')"

text \<open>
  A run of the animation: \<open>animateGeneration\<close>, which calls \<open>step(0)\<close> itself, and then
  \<open>k\<close> timers expiring in turn.
\<close>

definition runAnimation :: "nat \<Rightarrow> AppState \<Rightarrow> rng \<Rightarrow> (AppState \<times> rng) option" where
  "runAnimation k s g =
     (case animateGeneration s g of
        None \<Rightarrow> None
      | Some (s1, g1) \<Rightarrow> fireN k s1 g1)"

text \<open>
  The highlight queue that the ticks with the target vertices \<open>tvs\<close> (oldest first) build
  from the empty queue.
\<close>

definition queueAfter :: "Point list \<Rightarrow> HighlightedVertex list" where
  "queueAfter tvs = foldl (\<lambda>q tv. highlightTick tv q) [] tvs"

text \<open>
  The closed form of that queue, from the target vertices newest first: the four newest
  with the lives 4, 3, 2, 1.
\<close>

definition queueOf :: "Point list \<Rightarrow> HighlightedVertex list" where
  "queueOf newest = map (\<lambda>(v, l). \<lparr>vertex = v, life = l\<rparr>) (zip (take 4 newest) [4, 3, 2, 1])"

text \<open>
  A run is on its way when its one pending timer is the one whose handle the ref holds;
  no run is on its way when no timer is pending.
\<close>

definition timerTracked :: "AppState \<Rightarrow> bool" where
  "timerTracked s =
     (case timers s of
        [] \<Rightarrow> True
      | t # ts \<Rightarrow> ts = [] \<and> animationTimeoutRef s = Some (timer_id t) \<and> timer_id t \<noteq> 0)"

text \<open>
  The state of a run between two ticks, when \<open>step\<close> has been called for the counts below
  \<open>c\<close>: the controller is generating, the last step is published, and the one pending
  timer, tracked by the ref, will call \<open>step(c)\<close> after 100 ms with the last point as
  \<open>localCurrent\<close>.
\<close>

definition midRun :: "nat \<Rightarrow> AppState \<Rightarrow> bool" where
  "midRun c s =
     (case timers s of
        [t] \<Rightarrow> timer_count t = c \<and> timer_delay t = 100
               \<and> points s \<noteq> [] \<and> timer_local t = last (points s)
               \<and> animationTimeoutRef s = Some (timer_id t) \<and> timer_id t \<noteq> 0
               \<and> 0 < nextTimerId s
               \<and> isGenerating s \<and> animationStep s \<noteq> None
      | _ \<Rightarrow> False)"

text \<open>
  A concrete component for the examples: an 800 x 600 canvas at the page origin, a random
  source that always returns 1/4, and the state of the first render.
\<close>

definition exampleCanvas :: Canvas where
  "exampleCanvas = \<lparr>cwidth = 800, cheight = 600, rect_left = 0, rect_top = 0,
                     rect_width = 800, rect_height = 600\<rparr>"

definition exampleRng :: rng where
  "exampleRng = (\<lambda>i. 1 / 4)"

definition exampleState :: AppState where
  "exampleState = fst (initialState (Some exampleCanvas) exampleRng)"

section \<open>Properties of the geometry\<close>


lemma sqrt34_lower: "0.866025 < sqrt (0.75::real)"
  by (rule real_less_rsqrt) (simp add: power2_eq_square)

lemma sqrt34_upper: "sqrt (0.75::real) < 0.866026"
  by (rule real_less_lsqrt) (simp_all add: power2_eq_square)










section \<open>Properties of the initial viewport\<close>

text \<open>
  C5, as stated, gives the scale for an 800 x 600 canvas as about 566.67. The code
  returns \<open>600 / (sqrt 0.75 * 1.1)\<close>, which is about 629.84, more than 60 away.
\<close>

theorem getInitialViewport_example_counterexample:
  "\<not> \<bar>scale (getInitialViewport 800 600) - 566.67\<bar> < 1"
proof -
  have lo: "0.866025 < sqrt (0.75::real)" by (rule sqrt34_lower)
  have hi: "sqrt (0.75::real) < 0.866026" by (rule sqrt34_upper)
  have pos: "0 < sqrt (0.75::real) * 1.1" by simp
  have a: "629 < 600 / (sqrt 0.75 * 1.1)"
    using lo hi pos by (simp add: pos_less_divide_eq)
  have c: "600 / (sqrt 0.75 * 1.1) \<le> (800::real) / 1.1"
    using lo hi pos by (simp add: pos_divide_le_eq)
  have s: "scale (getInitialViewport 800 600) = 600 / (sqrt 0.75 * 1.1)"
    using c by (simp add: getInitialViewport_def INITIAL_VIEWPORT_PADDING_def Let_def min_def)
  have "1 \<le> 600 / (sqrt 0.75 * 1.1) - (566.67::real)"
    using a by simp
  then show ?thesis unfolding s by (simp add: abs_if)
qed

text \<open>
  C5, amended. \<open>getInitialViewport width height\<close> has the scale
  \<open>min (width / (1 * 1.1)) (height / (sqrt 0.75 * 1.1))\<close> and the centre
  \<open>(0.5, sqrt 0.75 / 2)\<close>. For an 800 x 600 canvas the scale is
  \<open>600 / (sqrt 0.75 * 1.1)\<close>, between 629.83 and 629.84, \<open>x\<close> is 0.5 and \<open>y\<close> is
  \<open>sqrt 0.75 / 2\<close>, between 0.4330 and 0.4331.
\<close>

theorem getInitialViewport_formula:
  "getInitialViewport width height =
     \<lparr>vx = 0.5, vy = sqrt 0.75 / 2,
      scale = min (width / (1 * 1.1)) (height / (sqrt 0.75 * 1.1))\<rparr>
   \<and> vx (getInitialViewport 800 600) = 0.5
   \<and> vy (getInitialViewport 800 600) = sqrt 0.75 / 2
   \<and> 0.4330 < vy (getInitialViewport 800 600) \<and> vy (getInitialViewport 800 600) < 0.4331
   \<and> scale (getInitialViewport 800 600) = min (800 / 1.1) (600 / (sqrt 0.75 * 1.1))
   \<and> scale (getInitialViewport 800 600) = 600 / (sqrt 0.75 * 1.1)
   \<and> 629.83 < scale (getInitialViewport 800 600) \<and> scale (getInitialViewport 800 600) < 629.84"
proof -
  have f: "getInitialViewport width height =
     \<lparr>vx = 0.5, vy = sqrt 0.75 / 2,
      scale = min (width / (1 * 1.1)) (height / (sqrt 0.75 * 1.1))\<rparr>" for width height
    by (simp add: getInitialViewport_def INITIAL_VIEWPORT_PADDING_def Let_def)
  have lo: "0.866025 < sqrt (0.75::real)" by (rule sqrt34_lower)
  have hi: "sqrt (0.75::real) < 0.866026" by (rule sqrt34_upper)
  have pos: "0 < sqrt (0.75::real) * 1.1" by simp
  have a: "629.83 < 600 / (sqrt 0.75 * 1.1)"
    using lo hi pos by (simp add: pos_less_divide_eq)
  have b: "600 / (sqrt 0.75 * 1.1) < (629.84::real)"
    using lo hi pos by (simp add: pos_divide_less_eq)
  have c: "600 / (sqrt 0.75 * 1.1) \<le> (800::real) / 1.1"
    using lo hi pos by (simp add: pos_divide_le_eq)
  have m: "min (800 / 1.1) (600 / (sqrt 0.75 * 1.1)) = 600 / (sqrt (0.75::real) * 1.1)"
    using c by (simp add: min_def)
  have y: "0.4330 < sqrt (0.75::real) / 2" "sqrt (0.75::real) / 2 < 0.4331"
    using lo hi by simp_all
  have s: "scale (getInitialViewport 800 600) = min (800 / 1.1) (600 / (sqrt 0.75 * 1.1))"
    unfolding f by simp
  have vx: "vx (getInitialViewport 800 600) = 0.5" unfolding f by simp
  have vy: "vy (getInitialViewport 800 600) = sqrt 0.75 / 2" unfolding f by simp
  show ?thesis
    unfolding s vx vy m using f a b m y by blast
qed

section \<open>Properties of the chaos game step\<close>

lemma vertexAt_floor:
  assumes "0 \<le> r" "r < 1"
  shows "\<exists>tv. vertexAt VERTICES \<lfloor>r * 3\<rfloor> = Some tv \<and>
           tv \<in> {\<lparr>px = 0, py = 0\<rparr>, \<lparr>px = 1, py = 0\<rparr>, \<lparr>px = 0.5, py = sqrt 0.75\<rparr>}"
proof -
  have "0 \<le> \<lfloor>r * 3\<rfloor>" using assms by simp
  moreover have "\<lfloor>r * 3\<rfloor> < 3" using assms by (simp add: floor_less_iff)
  ultimately have "\<lfloor>r * 3\<rfloor> = 0 \<or> \<lfloor>r * 3\<rfloor> = 1 \<or> \<lfloor>r * 3\<rfloor> = 2" by linarith
  then show ?thesis
    by (auto simp: vertexAt_def VERTICES_def)
qed







section \<open>Properties of the viewport operations\<close>

lemma exampleState_simps:
  "points exampleState = []"
  "viewport exampleState = \<lparr>vx = 0.5, vy = 0.433, scale = 1\<rparr>"
  "canvasRef exampleState = Some exampleCanvas"
  "isGenerating exampleState = False"
  "isDragging exampleState = False"
  "animationStep exampleState = None"
  "highlightedVertices exampleState = []"
  "animationTimeoutRef exampleState = None"
  "timers exampleState = []"
  "nextTimerId exampleState = 1"
  "setPointsCalls exampleState = 0"
  "pointsPerClick exampleState = N100"
  by (simp_all add: exampleState_def initialState_def getInitialPoint_def Let_def
      split: prod.splits)


























section \<open>Properties of the highlight queue\<close>

lemma highlightTick_queueOf: "highlightTick tv (queueOf r) = queueOf (tv # r)"
proof -
  consider "r = []" | a where "r = [a]" | a b where "r = [a, b]"
    | a b c where "r = [a, b, c]" | a b c d r' where "r = a # b # c # d # r'"
    by (metis list.exhaust)
  then show ?thesis
    by cases (simp_all add: highlightTick_def queueOf_def)
qed

lemma foldl_highlightTick:
  "foldl (\<lambda>q tv. highlightTick tv q) (queueOf r) tvs = queueOf (rev tvs @ r)"
  by (induction tvs arbitrary: r) (simp_all add: highlightTick_queueOf)

lemma queueAfter_queueOf: "queueAfter tvs = queueOf (rev tvs)"
  using foldl_highlightTick [of "[]" tvs] by (simp add: queueAfter_def queueOf_def)

lemma queueAfter_snoc: "queueAfter (tvs @ [tv]) = highlightTick tv (queueAfter tvs)"
  by (simp add: queueAfter_def)

lemma queueOf_life: "map life (queueOf r) = take (length r) [4, 3, 2, 1]"
proof -
  consider "r = []" | a where "r = [a]" | a b where "r = [a, b]"
    | a b c where "r = [a, b, c]" | a b c d r' where "r = a # b # c # d # r'"
    by (metis list.exhaust)
  then show ?thesis
    by cases (simp_all add: queueOf_def)
qed

lemma queueOf_vertex: "map vertex (queueOf r) = take 4 r"
proof -
  consider "r = []" | a where "r = [a]" | a b where "r = [a, b]"
    | a b c where "r = [a, b, c]" | a b c d r' where "r = a # b # c # d # r'"
    by (metis list.exhaust)
  then show ?thesis
    by cases (simp_all add: queueOf_def)
qed

lemma step_tick:
  assumes "count < 100" "step count localCurrent s g = Some (s', g')"
  shows "\<exists>tv. chaosStep localCurrent g = Some (tv, nextPoint localCurrent tv, g')
           \<and> s' = s\<lparr>animationStep :=
                     Some \<lparr>currentPoint = localCurrent, targetVertex = tv,
                           newPoint = nextPoint localCurrent tv\<rparr>,
                   highlightedVertices := highlightTick tv (highlightedVertices s),
                   points := points s @ [nextPoint localCurrent tv],
                   setPointsCalls := setPointsCalls s + 1,
                   animationTimeoutRef := Some (nextTimerId s),
                   timers := timers s @
                     [\<lparr>timer_id = nextTimerId s, timer_delay = 100,
                       timer_count = count + 1, timer_local = nextPoint localCurrent tv\<rparr>],
                   nextTimerId := nextTimerId s + 1\<rparr>"
  using assms
  by (auto simp: step_def chaosStep_def split: option.splits)


text \<open>
  C10. After a tick on a queue that ticks built from the empty queue, the queue holds
  the target vertices of the last four ticks at most, newest first, with the lives
  4, 3, 2, 1 in this order: the entry a tick prepends with life 5 is decremented by the
  same tick, is in the queue after this tick and the three that follow, and is pruned by
  the fourth tick after its own.
\<close>

theorem highlight_queue_lives:
  assumes "count < 100" and "step count localCurrent s g = Some (s', g')"
    and "highlightedVertices s = queueAfter tvs"
  shows "\<exists>tv. animationStep s' =
                Some \<lparr>currentPoint = localCurrent, targetVertex = tv,
                      newPoint = nextPoint localCurrent tv\<rparr>
           \<and> highlightedVertices s' = queueAfter (tvs @ [tv])
           \<and> map vertex (highlightedVertices s') = take 4 (tv # rev tvs)
           \<and> map life (highlightedVertices s') = take (length tvs + 1) [4, 3, 2, 1]
           \<and> length (highlightedVertices s') = min 4 (length tvs + 1)
           \<and> (\<forall>h \<in> set (highlightedVertices s'). life h \<in> {1, 2, 3, 4})
           \<and> queueAfter [a, b, c, d, tv] =
                [\<lparr>vertex = tv, life = 4\<rparr>, \<lparr>vertex = d, life = 3\<rparr>,
                 \<lparr>vertex = c, life = 2\<rparr>, \<lparr>vertex = b, life = 1\<rparr>]"
proof -
  from step_tick [OF assms(1,2)] obtain tv where
    s': "s' = s\<lparr>animationStep :=
                     Some \<lparr>currentPoint = localCurrent, targetVertex = tv,
                           newPoint = nextPoint localCurrent tv\<rparr>,
                   highlightedVertices := highlightTick tv (highlightedVertices s),
                   points := points s @ [nextPoint localCurrent tv],
                   setPointsCalls := setPointsCalls s + 1,
                   animationTimeoutRef := Some (nextTimerId s),
                   timers := timers s @
                     [\<lparr>timer_id = nextTimerId s, timer_delay = 100,
                       timer_count = count + 1, timer_local = nextPoint localCurrent tv\<rparr>],
                   nextTimerId := nextTimerId s + 1\<rparr>"
    by blast
  have a: "animationStep s' = Some \<lparr>currentPoint = localCurrent, targetVertex = tv,
      newPoint = nextPoint localCurrent tv\<rparr>"
    by (simp add: s')
  have q: "highlightedVertices s' = queueAfter (tvs @ [tv])"
    by (simp add: s' assms(3) queueAfter_snoc)
  have f: "highlightedVertices s' = queueOf (tv # rev tvs)"
    by (simp add: q queueAfter_queueOf)
  have v: "map vertex (highlightedVertices s') = take 4 (tv # rev tvs)"
    unfolding f by (rule queueOf_vertex)
  have l: "map life (highlightedVertices s') = take (length tvs + 1) [4, 3, 2, 1]"
    unfolding f using queueOf_life [of "tv # rev tvs"] by simp
  have n: "length (highlightedVertices s') = min 4 (length tvs + 1)"
    using arg_cong [OF l, of length] by (simp add: min.commute)
  have m: "\<forall>h \<in> set (highlightedVertices s'). life h \<in> {1, 2, 3, 4}"
  proof
    fix h assume "h \<in> set (highlightedVertices s')"
    then have "life h \<in> set (map life (highlightedVertices s'))" by simp
    then have "life h \<in> set (take (length tvs + 1) [4, 3, 2, 1])" by (simp only: l)
    then have "life h \<in> set [4, 3, 2, 1]" by (rule in_set_takeD)
    then show "life h \<in> {1, 2, 3, 4}" by auto
  qed
  have e: "queueAfter [a, b, c, d, tv] =
      [\<lparr>vertex = tv, life = 4\<rparr>, \<lparr>vertex = d, life = 3\<rparr>,
       \<lparr>vertex = c, life = 2\<rparr>, \<lparr>vertex = b, life = 1\<rparr>]"
    by (simp add: queueAfter_queueOf queueOf_def)
  from a q v l n m e show ?thesis by blast
qed

theorem highlight_queue_lives_witness:
  "(0::nat) < 100
   \<and> highlightedVertices exampleState = queueAfter []
   \<and> map_option (\<lambda>(s', g'). highlightedVertices s')
        (step 0 \<lparr>px = 0, py = 0\<rparr> exampleState exampleRng) =
      Some [\<lparr>vertex = \<lparr>px = 0, py = 0\<rparr>, life = 4\<rparr>]
   \<and> map_option (\<lambda>(s', g'). map life (highlightedVertices s'))
        (step 0 \<lparr>px = 0, py = 0\<rparr> exampleState exampleRng) = Some (take (0 + 1) [4, 3, 2, 1])"
proof -
  have f: "\<lfloor>(1/4::real) * 3\<rfloor> = 0" by (simp add: floor_eq_iff)
  have c: "chaosStep \<lparr>px = 0, py = 0\<rparr> exampleRng =
      Some (\<lparr>px = 0, py = 0\<rparr>, \<lparr>px = 0, py = 0\<rparr>, drop_rng 1 exampleRng)"
    using f by (simp add: chaosStep_def vertexAt_def VERTICES_def nextPoint_def exampleRng_def)
  have q0: "highlightedVertices exampleState = queueAfter []"
    by (simp add: exampleState_simps queueAfter_def)
  obtain s' g' where st: "step 0 \<lparr>px = 0, py = 0\<rparr> exampleState exampleRng = Some (s', g')"
    by (simp add: step_def c)
  have hv: "highlightedVertices s' = [\<lparr>vertex = \<lparr>px = 0, py = 0\<rparr>, life = 4\<rparr>]"
    using st by (auto simp: step_def c highlightTick_def exampleState_simps)
  from highlight_queue_lives [OF _ st q0] have
    "map life (highlightedVertices s') = take (length ([]::Point list) + 1) [4, 3, 2, 1]"
    by auto
  with hv q0 st show ?thesis by simp
qed

section \<open>Properties of seed reacquisition\<close>

lemma drop_rng_apply: "drop_rng k g i = g (i + k)"
  by (simp add: drop_rng_def)

lemma drop_rng_drop_rng: "drop_rng j (drop_rng k g) = drop_rng (j + k) g"
  by (rule ext) (simp add: drop_rng_apply add.assoc)

lemma drop_rng_0: "drop_rng 0 g = g"
  by (rule ext) (simp add: drop_rng_apply)

lemma drop_rng_range:
  assumes "\<forall>i. 0 \<le> g i \<and> g i < 1"
  shows "\<forall>i. 0 \<le> drop_rng k g i \<and> drop_rng k g i < 1"
  using assms by (simp add: drop_rng_apply)

lemma candidate_drop:
  "candidate xMin yMin ww wh (drop_rng 2 g) j = candidate xMin yMin ww wh g (Suc j)"
  by (simp add: candidate_def drop_rng_apply add.commute)

lemma findSeedLoop_unfold:
  "findSeedLoop i xMin yMin ww wh g =
     (if i < 100 then
        (if isPointInTriangle (candidate xMin yMin ww wh g 0) VERTICES
         then (Some (candidate xMin yMin ww wh g 0), drop_rng 2 g)
         else findSeedLoop (i + 1) xMin yMin ww wh (drop_rng 2 g))
      else (None, g))"
  by (subst findSeedLoop.simps) (simp add: candidate_def Let_def)

lemma findSeedLoop_accept:
  assumes "i + j < 100"
    and "\<forall>k<j. \<not> isPointInTriangle (candidate xMin yMin ww wh g k) VERTICES"
    and "isPointInTriangle (candidate xMin yMin ww wh g j) VERTICES"
  shows "findSeedLoop i xMin yMin ww wh g =
           (Some (candidate xMin yMin ww wh g j), drop_rng (2 * j + 2) g)"
  using assms
proof (induction j arbitrary: i g)
  case 0
  then show ?case by (subst findSeedLoop_unfold) (simp add: numeral_2_eq_2)
next
  case (Suc j)
  have rej: "\<not> isPointInTriangle (candidate xMin yMin ww wh g 0) VERTICES"
    using Suc.prems(2) by simp
  have "findSeedLoop (i + 1) xMin yMin ww wh (drop_rng 2 g) =
      (Some (candidate xMin yMin ww wh (drop_rng 2 g) j), drop_rng (2 * j + 2) (drop_rng 2 g))"
  proof (rule Suc.IH)
    show "i + 1 + j < 100" using Suc.prems(1) by simp
    show "\<forall>k<j. \<not> isPointInTriangle (candidate xMin yMin ww wh (drop_rng 2 g) k) VERTICES"
      using Suc.prems(2) by (simp add: candidate_drop)
    show "isPointInTriangle (candidate xMin yMin ww wh (drop_rng 2 g) j) VERTICES"
      using Suc.prems(3) by (simp add: candidate_drop)
  qed
  moreover have "i < 100" using Suc.prems(1) by simp
  ultimately show ?case
    using rej by (subst findSeedLoop_unfold) (simp add: candidate_drop drop_rng_drop_rng)
qed

lemma findSeedLoop_reject:
  assumes "\<forall>k. i + k < 100 \<longrightarrow> \<not> isPointInTriangle (candidate xMin yMin ww wh g k) VERTICES"
  shows "findSeedLoop i xMin yMin ww wh g = (None, drop_rng (2 * (100 - i)) g)"
  using assms
proof (induction "100 - i" arbitrary: i g)
  case 0
  then show ?case by (subst findSeedLoop_unfold) (simp add: drop_rng_0)
next
  case (Suc n)
  have i: "i < 100" using Suc.hyps(2) by simp
  have rej: "\<not> isPointInTriangle (candidate xMin yMin ww wh g 0) VERTICES"
    using Suc.prems i by simp
  have "findSeedLoop (i + 1) xMin yMin ww wh (drop_rng 2 g) =
      (None, drop_rng (2 * (100 - (i + 1))) (drop_rng 2 g))"
  proof (rule Suc.hyps(1))
    show "n = 100 - (i + 1)" using Suc.hyps(2) by simp
    show "\<forall>k. i + 1 + k < 100 \<longrightarrow>
        \<not> isPointInTriangle (candidate xMin yMin ww wh (drop_rng 2 g) k) VERTICES"
      using Suc.prems by (simp add: candidate_drop)
  qed
  moreover have "2 * (100 - (i + 1)) + 2 = 2 * (100 - i)" using i by simp
  ultimately show ?case
    using rej i by (subst findSeedLoop_unfold) (simp add: drop_rng_drop_rng)
qed

text \<open>The loop either accepts the first candidate inside the triangle or rejects 100.\<close>

lemma findSeedLoop_cases:
  "(\<exists>j<100. isPointInTriangle (candidate xMin yMin ww wh g j) VERTICES
       \<and> (\<forall>k<j. \<not> isPointInTriangle (candidate xMin yMin ww wh g k) VERTICES)
       \<and> findSeedLoop 0 xMin yMin ww wh g =
           (Some (candidate xMin yMin ww wh g j), drop_rng (2 * j + 2) g))
   \<or> ((\<forall>k<100. \<not> isPointInTriangle (candidate xMin yMin ww wh g k) VERTICES)
       \<and> findSeedLoop 0 xMin yMin ww wh g = (None, drop_rng 200 g))"
proof (cases "\<exists>j<100. isPointInTriangle (candidate xMin yMin ww wh g j) VERTICES")
  case True
  define j where "j = (LEAST j. j < 100 \<and> isPointInTriangle (candidate xMin yMin ww wh g j) VERTICES)"
  from True have j: "j < 100 \<and> isPointInTriangle (candidate xMin yMin ww wh g j) VERTICES"
    unfolding j_def by (metis (mono_tags, lifting) LeastI_ex)
  have least: "\<forall>k<j. \<not> isPointInTriangle (candidate xMin yMin ww wh g k) VERTICES"
  proof (intro allI impI)
    fix k assume "k < j"
    then have "\<not> (k < 100 \<and> isPointInTriangle (candidate xMin yMin ww wh g k) VERTICES)"
      unfolding j_def by (rule not_less_Least)
    moreover have "k < 100" using \<open>k < j\<close> j by simp
    ultimately show "\<not> isPointInTriangle (candidate xMin yMin ww wh g k) VERTICES" by simp
  qed
  have "findSeedLoop 0 xMin yMin ww wh g =
      (Some (candidate xMin yMin ww wh g j), drop_rng (2 * j + 2) g)"
    by (rule findSeedLoop_accept) (use j least in simp_all)
  with j least show ?thesis by blast
next
  case False
  then have all: "\<forall>k<100. \<not> isPointInTriangle (candidate xMin yMin ww wh g k) VERTICES"
    by blast
  then have "findSeedLoop 0 xMin yMin ww wh g = (None, drop_rng (2 * (100 - 0)) g)"
    by (intro findSeedLoop_reject) simp
  with all show ?thesis by simp
qed

lemma getInitialPoint_formula:
  "getInitialPoint g =
     (let s0 = g 0; t0 = g 1;
          s = (if s0 + t0 > 1 then 1 - s0 else s0);
          t = (if s0 + t0 > 1 then 1 - t0 else t0)
      in (\<lparr>px = 0 * (1 - s - t) + 1 * s + 0.5 * t,
           py = 0 * (1 - s - t) + 0 * s + sqrt 0.75 * t\<rparr>, drop_rng 2 g))"
  by (simp add: getInitialPoint_def VERTICES_def Let_def)







section \<open>Properties of batch generation\<close>

lemma chaosStep_Some:
  assumes "0 \<le> g 0" "g 0 < 1"
  shows "\<exists>tv. chaosStep current g = Some (tv, nextPoint current tv, drop_rng 1 g)"
  using vertexAt_floor [OF assms] by (auto simp: chaosStep_def)

lemma genLoop_unfold:
  "genLoop i n current newPoints g =
     (if i < n then
        (case chaosStep current g of
           None \<Rightarrow> None
         | Some (tv, np, g') \<Rightarrow> genLoop (i + 1) n np (newPoints @ [np]) g')
      else Some (newPoints, current, g))"
  by (rule genLoop.simps)

lemma length_chaosOrbit:
  assumes "\<forall>i. 0 \<le> g i \<and> g i < 1"
  shows "length (chaosOrbit n current g) = n"
  using assms
proof (induction n arbitrary: current g)
  case 0
  then show ?case by simp
next
  case (Suc n)
  from Suc.prems obtain tv where
    c: "chaosStep current g = Some (tv, nextPoint current tv, drop_rng 1 g)"
    using chaosStep_Some [of g current] by blast
  have "\<forall>i. 0 \<le> drop_rng 1 g i \<and> drop_rng 1 g i < 1"
    by (rule drop_rng_range [OF Suc.prems])
  then have "length (chaosOrbit n (nextPoint current tv) (drop_rng 1 g)) = n"
    by (rule Suc.IH)
  then show ?case by (simp add: c)
qed

lemma genLoop_chaosOrbit:
  assumes "\<forall>i. 0 \<le> g i \<and> g i < 1"
  shows "genLoop i n current newPoints g =
           Some (newPoints @ chaosOrbit (n - i) current g,
                 last (current # chaosOrbit (n - i) current g),
                 drop_rng (n - i) g)"
  using assms
proof (induction "n - i" arbitrary: i current newPoints g)
  case 0
  then show ?case by (subst genLoop_unfold) (simp add: drop_rng_0)
next
  case (Suc k)
  have i: "i < n" using Suc.hyps(2) by simp
  have k: "n - i = Suc k" using Suc.hyps(2) by simp
  have k': "k = n - (i + 1)" using Suc.hyps(2) by simp
  from Suc.prems obtain tv where
    c: "chaosStep current g = Some (tv, nextPoint current tv, drop_rng 1 g)"
    using chaosStep_Some [of g current] by blast
  have r: "\<forall>i. 0 \<le> drop_rng 1 g i \<and> drop_rng 1 g i < 1"
    by (rule drop_rng_range [OF Suc.prems])
  have ih: "genLoop (i + 1) n (nextPoint current tv) (newPoints @ [nextPoint current tv])
        (drop_rng 1 g) =
      Some ((newPoints @ [nextPoint current tv]) @
              chaosOrbit (n - (i + 1)) (nextPoint current tv) (drop_rng 1 g),
            last (nextPoint current tv #
              chaosOrbit (n - (i + 1)) (nextPoint current tv) (drop_rng 1 g)),
            drop_rng (n - (i + 1)) (drop_rng 1 g))"
    by (rule Suc.hyps(1) [OF k' r])
  have o: "chaosOrbit (n - i) current g =
      nextPoint current tv # chaosOrbit (n - (i + 1)) (nextPoint current tv) (drop_rng 1 g)"
    unfolding k k' [symmetric] by (simp add: c)
  have "n - (i + 1) + 1 = n - i" using i by simp
  then have d: "drop_rng (n - (i + 1)) (drop_rng 1 g) = drop_rng (n - i) g"
    by (simp only: drop_rng_drop_rng)
  have "genLoop i n current newPoints g =
      genLoop (i + 1) n (nextPoint current tv) (newPoints @ [nextPoint current tv]) (drop_rng 1 g)"
    by (subst genLoop_unfold) (simp add: i c)
  also note ih
  finally show ?case
    unfolding o d by simp
qed

lemma chaosOrbit_nth:
  assumes "\<forall>i. 0 \<le> g i \<and> g i < 1" "i < n"
  shows "\<exists>tv. chaosStep (if i = 0 then seed else chaosOrbit n seed g ! (i - 1)) (drop_rng i g) =
           Some (tv, chaosOrbit n seed g ! i, drop_rng (i + 1) g)"
  using assms
proof (induction n arbitrary: seed g i)
  case 0
  then show ?case by simp
next
  case (Suc n)
  from Suc.prems obtain tv where
    c: "chaosStep seed g = Some (tv, nextPoint seed tv, drop_rng 1 g)"
    using chaosStep_Some [of g seed] by blast
  have r: "\<forall>i. 0 \<le> drop_rng 1 g i \<and> drop_rng 1 g i < 1"
    by (rule drop_rng_range) (use Suc.prems in simp)
  show ?case
  proof (cases i)
    case 0
    then show ?thesis by (simp add: c drop_rng_0)
  next
    case (Suc j)
    then have j: "j < n" using Suc.prems(2) by simp
    from Suc.IH [OF r j, of "nextPoint seed tv"] obtain tv' where
      "chaosStep (if j = 0 then nextPoint seed tv
                  else chaosOrbit n (nextPoint seed tv) (drop_rng 1 g) ! (j - 1))
         (drop_rng j (drop_rng 1 g)) =
       Some (tv', chaosOrbit n (nextPoint seed tv) (drop_rng 1 g) ! j,
             drop_rng (j + 1) (drop_rng 1 g))"
      by blast
    then show ?thesis
      using Suc by (cases j) (simp_all add: c drop_rng_drop_rng)
  qed
qed


lemma getInitialPoint_snd: "snd (getInitialPoint g) = drop_rng 2 g"
  by (simp add: getInitialPoint_formula Let_def)

lemma findSeedPoint_rng: "\<exists>k. snd (findSeedPoint canvas vp pts current g) = drop_rng k g"
proof (cases canvas)
  case None
  then show ?thesis by (auto simp: findSeedPoint_def getInitialPoint_snd)
next
  case (Some c)
  define ww where "ww = cwidth c / scale vp"
  define wh where "wh = cheight c / scale vp"
  define xMin where "xMin = vx vp - ww / 2"
  define yMin where "yMin = vy vp - wh / 2"
  define triggered where "triggered =
    (length pts = 0 \<or> \<not> isPointInView xMin (vx vp + ww / 2) yMin (vy vp + wh / 2) current)"
  have res: "findSeedPoint canvas vp pts current g =
      (if triggered
       then (case findSeedLoop 0 xMin yMin ww wh g of
               (Some p, g') \<Rightarrow> (p, g')
             | (None, g') \<Rightarrow> getInitialPoint g')
       else (current, g))"
    by (simp add: Some findSeedPoint_def Let_def triggered_def xMin_def yMin_def ww_def wh_def)
  show ?thesis
  proof (cases triggered)
    case False
    then have "snd (findSeedPoint canvas vp pts current g) = drop_rng 0 g"
      by (simp add: res drop_rng_0)
    then show ?thesis ..
  next
    case True
    from findSeedLoop_cases [of xMin yMin ww wh g]
    consider j where "findSeedLoop 0 xMin yMin ww wh g =
        (Some (candidate xMin yMin ww wh g j), drop_rng (2 * j + 2) g)"
      | "findSeedLoop 0 xMin yMin ww wh g = (None, drop_rng 200 g)"
      by blast
    then show ?thesis
    proof cases
      case 1
      then have "snd (findSeedPoint canvas vp pts current g) = drop_rng (2 * j + 2) g"
        using True by (simp add: res)
      then show ?thesis ..
    next
      case 2
      then have "snd (findSeedPoint canvas vp pts current g) = drop_rng (2 + 200) g"
        using True by (simp add: res getInitialPoint_snd drop_rng_drop_rng)
      then show ?thesis ..
    qed
  qed
qed

lemma findSeedPoint_range:
  assumes "\<forall>i. 0 \<le> g i \<and> g i < 1"
  shows "\<forall>i. 0 \<le> snd (findSeedPoint canvas vp pts current g) i
           \<and> snd (findSeedPoint canvas vp pts current g) i < 1"
proof -
  from findSeedPoint_rng obtain k where
    "snd (findSeedPoint canvas vp pts current g) = drop_rng k g" by blast
  then show ?thesis using drop_rng_range [OF assms, of k] by simp
qed

lemma clicks_cases: "clicks p \<in> {100, 1000, 10000}"
  by (cases p) simp_all

text \<open>
  C7. For each of the three amounts, \<open>generateInstantly\<close> seeds with \<open>findSeedPoint\<close>,
  makes exactly that many steps, each from the point the step before produced, appends
  the new points in this order to the unchanged earlier points with one call of
  \<open>setPoints\<close>, and stores the last new point in \<open>currentPointRef\<close>.
\<close>

theorem generateInstantly_batch:
  assumes "\<forall>i. 0 \<le> g i \<and> g i < 1"
  shows "\<exists>s' g'. generateInstantly s g = Some (s', g') \<and>
    (let seed = fst (findSeedPoint (canvasRef s) (viewport s) (points s) (currentPointRef s) g);
         g1 = snd (findSeedPoint (canvasRef s) (viewport s) (points s) (currentPointRef s) g);
         n = clicks (pointsPerClick s);
         newPoints = chaosOrbit n seed g1
     in n \<in> {100, 1000, 10000}
      \<and> length newPoints = n
      \<and> (\<forall>i<n. \<exists>tv. chaosStep (if i = 0 then seed else newPoints ! (i - 1)) (drop_rng i g1) =
                        Some (tv, newPoints ! i, drop_rng (i + 1) g1))
      \<and> s' = s\<lparr>currentPointRef := last newPoints,
                points := points s @ newPoints,
                setPointsCalls := setPointsCalls s + 1\<rparr>
      \<and> points s' = points s @ newPoints
      \<and> take (length (points s)) (points s') = points s
      \<and> length (points s') = length (points s) + n
      \<and> currentPointRef s' = last newPoints
      \<and> setPointsCalls s' = setPointsCalls s + 1
      \<and> g' = drop_rng n g1)"
proof -
  define seed where
    "seed = fst (findSeedPoint (canvasRef s) (viewport s) (points s) (currentPointRef s) g)"
  define g1 where
    "g1 = snd (findSeedPoint (canvasRef s) (viewport s) (points s) (currentPointRef s) g)"
  define n where "n = clicks (pointsPerClick s)"
  define newPoints where "newPoints = chaosOrbit n seed g1"
  define s' where "s' = s\<lparr>currentPointRef := last newPoints,
                points := points s @ newPoints,
                setPointsCalls := setPointsCalls s + 1\<rparr>"
  have fs: "findSeedPoint (canvasRef s) (viewport s) (points s) (currentPointRef s) g = (seed, g1)"
    by (simp add: seed_def g1_def)
  have r1: "\<forall>i. 0 \<le> g1 i \<and> g1 i < 1"
    unfolding g1_def by (rule findSeedPoint_range [OF assms])
  have n: "n \<in> {100, 1000, 10000}" unfolding n_def by (rule clicks_cases)
  have len: "length newPoints = n"
    unfolding newPoints_def by (rule length_chaosOrbit [OF r1])
  have ne: "newPoints \<noteq> []" using len n by auto
  have loop: "genLoop 0 n seed [] g1 = Some (newPoints, last newPoints, drop_rng n g1)"
    using genLoop_chaosOrbit [OF r1, of 0 n seed "[]"] ne by (simp add: newPoints_def)
  have gi: "generateInstantly s g = Some (s', drop_rng n g1)"
    by (simp add: generateInstantly_def fs loop n_def [symmetric] s'_def)
  have nth: "\<forall>i<n. \<exists>tv. chaosStep (if i = 0 then seed else newPoints ! (i - 1)) (drop_rng i g1) =
      Some (tv, newPoints ! i, drop_rng (i + 1) g1)"
    unfolding newPoints_def using chaosOrbit_nth [OF r1] by blast
  have f: "points s' = points s @ newPoints" "take (length (points s)) (points s') = points s"
    "length (points s') = length (points s) + n" "currentPointRef s' = last newPoints"
    "setPointsCalls s' = setPointsCalls s + 1"
    by (simp_all add: s'_def len)
  have "generateInstantly s g = Some (s', drop_rng n g1) \<and>
      n \<in> {100, 1000, 10000} \<and> length newPoints = n
      \<and> (\<forall>i<n. \<exists>tv. chaosStep (if i = 0 then seed else newPoints ! (i - 1)) (drop_rng i g1) =
                        Some (tv, newPoints ! i, drop_rng (i + 1) g1))
      \<and> s' = s\<lparr>currentPointRef := last newPoints,
                points := points s @ newPoints,
                setPointsCalls := setPointsCalls s + 1\<rparr>
      \<and> points s' = points s @ newPoints
      \<and> take (length (points s)) (points s') = points s
      \<and> length (points s') = length (points s) + n
      \<and> currentPointRef s' = last newPoints
      \<and> setPointsCalls s' = setPointsCalls s + 1
      \<and> drop_rng n g1 = drop_rng n g1"
    using gi n len nth f s'_def by (intro conjI) simp_all
  then show ?thesis
    unfolding Let_def seed_def [symmetric] g1_def [symmetric] n_def [symmetric]
      newPoints_def [symmetric]
    by blast
qed

theorem generateInstantly_batch_witness:
  "(\<forall>i. 0 \<le> exampleRng i \<and> exampleRng i < 1)
   \<and> clicks (pointsPerClick exampleState) = 100
   \<and> map_option (\<lambda>(s', g'). (length (points s'), setPointsCalls s'))
        (generateInstantly exampleState exampleRng) = Some (100, 1)"
proof -
  have r: "\<forall>i. 0 \<le> exampleRng i \<and> exampleRng i < 1" by (simp add: exampleRng_def)
  have c: "clicks (pointsPerClick exampleState) = 100" by (simp add: exampleState_simps)
  from generateInstantly_batch [OF r, of exampleState] obtain s' g' where
    g: "generateInstantly exampleState exampleRng = Some (s', g')" and
    l: "length (points s') = length (points exampleState) + clicks (pointsPerClick exampleState)" and
    u: "setPointsCalls s' = setPointsCalls exampleState + 1"
    unfolding Let_def by blast
  from l u have "length (points s') = 100" "setPointsCalls s' = 1"
    by (simp_all add: exampleState_simps)
  with r c g show ?thesis by simp
qed

section \<open>Properties of the animation run\<close>

lemma midRun_iff:
  "midRun c s \<longleftrightarrow>
     (\<exists>t. timers s = [t] \<and> timer_count t = c \<and> timer_delay t = 100
          \<and> points s \<noteq> [] \<and> timer_local t = last (points s)
          \<and> animationTimeoutRef s = Some (timer_id t) \<and> timer_id t \<noteq> 0
          \<and> 0 < nextTimerId s
          \<and> isGenerating s \<and> animationStep s \<noteq> None)"
  by (auto simp: midRun_def split: list.splits)

lemma midRun_timerTracked: "midRun c s \<Longrightarrow> timerTracked s"
  by (auto simp: midRun_iff timerTracked_def)

lemma step_count_lt:
  assumes "0 \<le> g 0" "g 0 < 1" "count < 100"
  shows "\<exists>tv. step count localCurrent s g =
           Some (s\<lparr>animationStep :=
                     Some \<lparr>currentPoint = localCurrent, targetVertex = tv,
                           newPoint = nextPoint localCurrent tv\<rparr>,
                   highlightedVertices := highlightTick tv (highlightedVertices s),
                   points := points s @ [nextPoint localCurrent tv],
                   setPointsCalls := setPointsCalls s + 1,
                   animationTimeoutRef := Some (nextTimerId s),
                   timers := timers s @
                     [\<lparr>timer_id = nextTimerId s, timer_delay = 100,
                       timer_count = count + 1, timer_local = nextPoint localCurrent tv\<rparr>],
                   nextTimerId := nextTimerId s + 1\<rparr>, drop_rng 1 g)"
proof -
  from chaosStep_Some [where g = g and current = localCurrent, OF assms(1,2)] obtain tv where
    "chaosStep localCurrent g = Some (tv, nextPoint localCurrent tv, drop_rng 1 g)" by blast
  then show ?thesis using assms(3) by (intro exI [of _ tv]) (simp add: step_def)
qed

lemma step_count_ge:
  assumes "100 \<le> count"
  shows "step count localCurrent s g =
           Some (s\<lparr>isGenerating := False, animationStep := None,
                   highlightedVertices := [], currentPointRef := localCurrent\<rparr>, g)"
  using assms by (simp add: step_def)

lemma animateGeneration_start:
  assumes r: "\<forall>i. 0 \<le> g i \<and> g i < 1" and idle: "timers s = []" and id: "0 < nextTimerId s"
  shows "\<exists>s1 g1. animateGeneration s g = Some (s1, g1)
           \<and> (\<forall>i. 0 \<le> g1 i \<and> g1 i < 1)
           \<and> midRun 1 s1
           \<and> length (points s1) = length (points s) + 1
           \<and> take (length (points s)) (points s1) = points s
           \<and> setPointsCalls s1 = setPointsCalls s + 1"
proof -
  define seed where
    "seed = fst (findSeedPoint (canvasRef s) (viewport s) (points s) (currentPointRef s) g)"
  define g0 where
    "g0 = snd (findSeedPoint (canvasRef s) (viewport s) (points s) (currentPointRef s) g)"
  have fs: "findSeedPoint (canvasRef s) (viewport s) (points s) (currentPointRef s) g = (seed, g0)"
    by (simp add: seed_def g0_def)
  have r0: "\<forall>i. 0 \<le> g0 i \<and> g0 i < 1"
    unfolding g0_def by (rule findSeedPoint_range [OF r])
  define s0 where "s0 = s\<lparr>isGenerating := True, animationStep := None\<rparr>"
  from r0 have "0 \<le> g0 0" "g0 0 < 1" by simp_all
  from step_count_lt [where g = g0 and count = 0 and localCurrent = seed and s = s0, OF this]
  obtain s1 where
    st: "step 0 seed s0 g0 = Some (s1, drop_rng 1 g0)" and
    s1: "\<exists>tv. s1 = s0\<lparr>animationStep :=
                     Some \<lparr>currentPoint = seed, targetVertex = tv,
                           newPoint = nextPoint seed tv\<rparr>,
                   highlightedVertices := highlightTick tv (highlightedVertices s0),
                   points := points s0 @ [nextPoint seed tv],
                   setPointsCalls := setPointsCalls s0 + 1,
                   animationTimeoutRef := Some (nextTimerId s0),
                   timers := timers s0 @
                     [\<lparr>timer_id = nextTimerId s0, timer_delay = 100,
                       timer_count = 0 + 1, timer_local = nextPoint seed tv\<rparr>],
                   nextTimerId := nextTimerId s0 + 1\<rparr>"
    by auto
  have ag: "animateGeneration s g = Some (s1, drop_rng 1 g0)"
    by (simp add: animateGeneration_def Let_def fs st s0_def [symmetric])
  have m: "midRun 1 s1" using s1 idle id by (auto simp: midRun_iff s0_def)
  have p: "length (points s1) = length (points s) + 1"
    "take (length (points s)) (points s1) = points s"
    "setPointsCalls s1 = setPointsCalls s + 1"
    using s1 by (auto simp: s0_def)
  from ag drop_rng_range [OF r0, of 1] m p show ?thesis by blast
qed

lemma fire_tick:
  assumes r: "0 \<le> g 0" "g 0 < 1" and m: "midRun c s" and c: "c < 100"
  shows "\<exists>s'. fire s g = Some (s', drop_rng 1 g)
           \<and> midRun (c + 1) s'
           \<and> length (points s') = length (points s) + 1
           \<and> take (length (points s)) (points s') = points s
           \<and> setPointsCalls s' = setPointsCalls s + 1"
proof -
  from m obtain t where t: "timers s = [t]" "timer_count t = c" "0 < nextTimerId s"
    "isGenerating s"
    by (auto simp: midRun_iff)
  define s0 where "s0 = s\<lparr>timers := []\<rparr>"
  from step_count_lt [where g = g and count = c and localCurrent = "timer_local t" and s = s0,
      OF r c]
  obtain s' where
    st: "step c (timer_local t) s0 g = Some (s', drop_rng 1 g)" and
    s': "\<exists>tv. s' = s0\<lparr>animationStep :=
                     Some \<lparr>currentPoint = timer_local t, targetVertex = tv,
                           newPoint = nextPoint (timer_local t) tv\<rparr>,
                   highlightedVertices := highlightTick tv (highlightedVertices s0),
                   points := points s0 @ [nextPoint (timer_local t) tv],
                   setPointsCalls := setPointsCalls s0 + 1,
                   animationTimeoutRef := Some (nextTimerId s0),
                   timers := timers s0 @
                     [\<lparr>timer_id = nextTimerId s0, timer_delay = 100,
                       timer_count = c + 1, timer_local = nextPoint (timer_local t) tv\<rparr>],
                   nextTimerId := nextTimerId s0 + 1\<rparr>"
    by auto
  have f: "fire s g = Some (s', drop_rng 1 g)"
    by (simp add: fire_def t st s0_def [symmetric])
  have m': "midRun (c + 1) s'" using s' t by (auto simp: midRun_iff s0_def)
  have p: "length (points s') = length (points s) + 1"
    "take (length (points s)) (points s') = points s"
    "setPointsCalls s' = setPointsCalls s + 1"
    using s' by (auto simp: s0_def)
  from f m' p show ?thesis by blast
qed

lemma fireN_ticks:
  assumes "\<forall>i. 0 \<le> g i \<and> g i < 1" "midRun c s" "c + k \<le> 100"
  shows "\<exists>s'. fireN k s g = Some (s', drop_rng k g)
           \<and> midRun (c + k) s'
           \<and> length (points s') = length (points s) + k
           \<and> take (length (points s)) (points s') = points s
           \<and> setPointsCalls s' = setPointsCalls s + k"
  using assms
proof (induction k arbitrary: s g c)
  case 0
  then show ?case by (simp add: drop_rng_0)
next
  case (Suc k)
  have c: "c < 100" using Suc.prems(3) by simp
  from Suc.prems(1) have "0 \<le> g 0" "g 0 < 1" by simp_all
  from fire_tick [where g = g, OF this Suc.prems(2) c] obtain s1 where
    f: "fire s g = Some (s1, drop_rng 1 g)" and m: "midRun (c + 1) s1" and
    l: "length (points s1) = length (points s) + 1" and
    p: "take (length (points s)) (points s1) = points s" and
    u: "setPointsCalls s1 = setPointsCalls s + 1"
    by blast
  have r1: "\<forall>i. 0 \<le> drop_rng 1 g i \<and> drop_rng 1 g i < 1"
    by (rule drop_rng_range [OF Suc.prems(1)])
  have "c + 1 + k \<le> 100" using Suc.prems(3) by simp
  from Suc.IH [OF r1 m this] obtain s' where
    n: "fireN k s1 (drop_rng 1 g) = Some (s', drop_rng k (drop_rng 1 g))" and
    m': "midRun (c + 1 + k) s'" and
    l': "length (points s') = length (points s1) + k" and
    p': "take (length (points s1)) (points s') = points s1" and
    u': "setPointsCalls s' = setPointsCalls s1 + k"
    by blast
  have "drop_rng k (drop_rng 1 g) = drop_rng (Suc k) g"
    by (simp add: drop_rng_drop_rng)
  with n have a: "fireN (Suc k) s g = Some (s', drop_rng (Suc k) g)"
    by (simp add: f)
  have b: "midRun (c + Suc k) s'" using m' by simp
  have "take (length (points s)) (points s') =
      take (length (points s)) (take (length (points s1)) (points s'))"
    by (simp add: l min_def)
  then have d: "take (length (points s)) (points s') = points s"
    by (simp only: p' p)
  from a b d l l' u u' show ?case by simp
qed

lemma fire_final:
  assumes "midRun 100 s"
  shows "fire s g = Some (s\<lparr>timers := [], isGenerating := False, animationStep := None,
                            highlightedVertices := [],
                            currentPointRef := last (points s)\<rparr>, g)"
proof -
  from assms obtain t where "timers s = [t]" "timer_count t = 100"
    "timer_local t = last (points s)"
    by (auto simp: midRun_iff)
  then show ?thesis by (simp add: fire_def step_count_ge)
qed

lemma fire_idle: "timers s = [] \<Longrightarrow> fire s g = Some (s, g)"
  by (simp add: fire_def)

lemma fireN_idle: "timers s = [] \<Longrightarrow> fireN k s g = Some (s, g)"
  by (induction k) (simp_all add: fire_idle)

lemma fireN_add:
  "fireN (j + k) s g = (case fireN j s g of None \<Rightarrow> None | Some (s', g') \<Rightarrow> fireN k s' g')"
  by (induction j arbitrary: s g) (auto split: option.splits)


lemma runAnimation_ticks:
  assumes r: "\<forall>i. 0 \<le> g i \<and> g i < 1" and idle: "timers s = []" and id: "0 < nextTimerId s"
    and k: "k < 100"
  shows "\<exists>sk gk. runAnimation k s g = Some (sk, gk)
           \<and> (\<forall>i. 0 \<le> gk i \<and> gk i < 1)
           \<and> midRun (k + 1) sk
           \<and> length (points sk) = length (points s) + (k + 1)
           \<and> take (length (points s)) (points sk) = points s
           \<and> setPointsCalls sk = setPointsCalls s + (k + 1)"
proof -
  from animateGeneration_start [OF r idle id] obtain s1 g1 where
    ag: "animateGeneration s g = Some (s1, g1)" and r1: "\<forall>i. 0 \<le> g1 i \<and> g1 i < 1" and
    m1: "midRun 1 s1" and l1: "length (points s1) = length (points s) + 1" and
    p1: "take (length (points s)) (points s1) = points s" and
    u1: "setPointsCalls s1 = setPointsCalls s + 1"
    by blast
  have "1 + k \<le> 100" using k by simp
  from fireN_ticks [OF r1 m1 this] obtain sk where
    n: "fireN k s1 g1 = Some (sk, drop_rng k g1)" and mk: "midRun (1 + k) sk" and
    lk: "length (points sk) = length (points s1) + k" and
    pk: "take (length (points s1)) (points sk) = points s1" and
    uk: "setPointsCalls sk = setPointsCalls s1 + k"
    by blast
  have a: "runAnimation k s g = Some (sk, drop_rng k g1)"
    by (simp add: runAnimation_def ag n)
  have "take (length (points s)) (points sk) =
      take (length (points s)) (take (length (points s1)) (points sk))"
    by (simp add: l1 min_def)
  then have p: "take (length (points s)) (points sk) = points s"
    by (simp only: pk p1)
  from a drop_rng_range [OF r1, of k] mk lk l1 p uk u1 show ?thesis
    by (intro exI [of _ sk] exI [of _ "drop_rng k g1"]) (simp add: add.commute)
qed

lemma runAnimation_finish:
  assumes r: "\<forall>i. 0 \<le> g i \<and> g i < 1" and idle: "timers s = []" and id: "0 < nextTimerId s"
  shows "\<exists>sf gf. runAnimation (100 + m) s g = Some (sf, gf)
           \<and> \<not> isGenerating sf \<and> timers sf = []
           \<and> length (points sf) = length (points s) + 100
           \<and> take (length (points s)) (points sf) = points s
           \<and> setPointsCalls sf = setPointsCalls s + 100
           \<and> animationStep sf = None \<and> highlightedVertices sf = []
           \<and> currentPointRef sf = last (points sf)
           \<and> runAnimation 100 s g = Some (sf, gf)"
proof -
  from runAnimation_ticks [OF r idle id, of 99] obtain s99 g99 where
    a: "runAnimation 99 s g = Some (s99, g99)" and m: "midRun (99 + 1) s99" and
    l: "length (points s99) = length (points s) + (99 + 1)" and
    p: "take (length (points s)) (points s99) = points s" and
    u: "setPointsCalls s99 = setPointsCalls s + (99 + 1)"
    by auto
  define sf where "sf = s99\<lparr>timers := [], isGenerating := False, animationStep := None,
      highlightedVertices := [], currentPointRef := last (points s99)\<rparr>"
  from m have m100: "midRun 100 s99" by simp
  have f: "fire s99 g99 = Some (sf, g99)"
    unfolding sf_def by (rule fire_final [OF m100])
  from a obtain s1 g1 where ag: "animateGeneration s g = Some (s1, g1)"
    and n99: "fireN 99 s1 g1 = Some (s99, g99)"
    by (auto simp: runAnimation_def split: option.splits)
  have t: "timers sf = []" by (simp add: sf_def)
  have n100: "fireN (99 + (1 + m)) s1 g1 = Some (sf, g99)"
    unfolding fireN_add [of 99] n99 by (simp add: f fireN_idle [OF t])
  have n100': "fireN (99 + 1) s1 g1 = Some (sf, g99)"
    unfolding fireN_add [of 99] n99 by (simp add: f)
  have b: "runAnimation (100 + m) s g = Some (sf, g99)"
    using n100 by (simp add: runAnimation_def ag)
  have c: "runAnimation 100 s g = Some (sf, g99)"
    using n100' by (simp add: runAnimation_def ag)
  have d: "\<not> isGenerating sf" "length (points sf) = length (points s) + 100"
    "take (length (points s)) (points sf) = points s"
    "setPointsCalls sf = setPointsCalls s + 100"
    "animationStep sf = None" "highlightedVertices sf = []"
    "currentPointRef sf = last (points sf)"
    using l p u by (simp_all add: sf_def)
  from b c t d show ?thesis by blast
qed

text \<open>
  C2, as stated, lets \<open>tick(count)\<close> schedule the next tick only if \<open>count + 1 < 100\<close> and
  makes the tick with count 99 go back to Idle. In the code \<open>step(99)\<close>, the hundredth
  tick, schedules \<open>step(100)\<close> like every tick before it: after \<open>animateGeneration\<close> and
  99 expired timers the hundred points are appended, the controller is still generating
  and a timer for \<open>step(100)\<close> with a delay of 100 ms is pending.
\<close>

theorem animation_tick_counterexample:
  "\<not> (99 + 1 < (100::nat))
   \<and> map_option (\<lambda>(s', g'). (length (points s'), isGenerating s', animationStep s' = None,
                             map timer_count (timers s'), map timer_delay (timers s')))
        (runAnimation 99 exampleState exampleRng) = Some (100, True, False, [100], [100])"
proof -
  have r: "\<forall>i. 0 \<le> exampleRng i \<and> exampleRng i < 1" by (simp add: exampleRng_def)
  have i: "timers exampleState = []" "0 < nextTimerId exampleState"
    by (simp_all add: exampleState_simps)
  from runAnimation_ticks [OF r i, of 99] obtain s99 g99 where
    a: "runAnimation 99 exampleState exampleRng = Some (s99, g99)" and
    m: "midRun (99 + 1) s99" and
    l: "length (points s99) = length (points exampleState) + (99 + 1)"
    by auto
  from m obtain t where "timers s99 = [t]" "timer_count t = 100" "timer_delay t = 100"
    "isGenerating s99" "animationStep s99 \<noteq> None"
    by (auto simp: midRun_iff)
  with a l show ?thesis by (simp add: exampleState_simps)
qed

text \<open>
  C2, amended. With the draws in \<open>[0, 1)\<close>, a run started when no timer is pending calls
  \<open>step\<close> 101 times: \<open>animateGeneration\<close> calls \<open>step(0)\<close> and each of 100 timers, every
  one with a delay of 100 ms, calls the next. Each \<open>step(count)\<close> with \<open>count < 100\<close>
  appends one point with its own \<open>setPoints\<close> call and schedules \<open>step(count + 1)\<close>, also
  for \<open>count = 99\<close>; until then the controller is generating. \<open>step(100)\<close> appends
  nothing and goes back to Idle: the run has appended exactly 100 points to the unchanged
  earlier ones, \<open>currentPointRef\<close> is the last of them, \<open>animationStep\<close> and the highlight
  queue are empty, no timer is pending and nothing happens afterwards.
\<close>

theorem animation_run:
  assumes r: "\<forall>i. 0 \<le> g i \<and> g i < 1" and idle: "timers s = []" and id: "0 < nextTimerId s"
  shows "(\<forall>k<100. \<exists>sk gk. runAnimation k s g = Some (sk, gk)
             \<and> midRun (k + 1) sk
             \<and> length (points sk) = length (points s) + (k + 1)
             \<and> take (length (points s)) (points sk) = points s
             \<and> setPointsCalls sk = setPointsCalls s + (k + 1))
       \<and> (\<exists>sf gf. runAnimation 100 s g = Some (sf, gf)
             \<and> \<not> isGenerating sf \<and> timers sf = []
             \<and> length (points sf) = length (points s) + 100
             \<and> take (length (points s)) (points sf) = points s
             \<and> setPointsCalls sf = setPointsCalls s + 100
             \<and> animationStep sf = None \<and> highlightedVertices sf = []
             \<and> currentPointRef sf = last (points sf)
             \<and> (\<forall>m. runAnimation (100 + m) s g = Some (sf, gf)))
       \<and> (\<forall>count<100. \<exists>tv. step count localCurrent s g =
             Some (s\<lparr>animationStep :=
                       Some \<lparr>currentPoint = localCurrent, targetVertex = tv,
                             newPoint = nextPoint localCurrent tv\<rparr>,
                     highlightedVertices := highlightTick tv (highlightedVertices s),
                     points := points s @ [nextPoint localCurrent tv],
                     setPointsCalls := setPointsCalls s + 1,
                     animationTimeoutRef := Some (nextTimerId s),
                     timers := timers s @
                       [\<lparr>timer_id = nextTimerId s, timer_delay = 100,
                         timer_count = count + 1, timer_local = nextPoint localCurrent tv\<rparr>],
                     nextTimerId := nextTimerId s + 1\<rparr>, drop_rng 1 g))
       \<and> step 100 localCurrent s g =
             Some (s\<lparr>isGenerating := False, animationStep := None,
                     highlightedVertices := [], currentPointRef := localCurrent\<rparr>, g)"
proof -
  have a: "\<forall>k<100. \<exists>sk gk. runAnimation k s g = Some (sk, gk)
             \<and> midRun (k + 1) sk
             \<and> length (points sk) = length (points s) + (k + 1)
             \<and> take (length (points s)) (points sk) = points s
             \<and> setPointsCalls sk = setPointsCalls s + (k + 1)"
    using runAnimation_ticks [OF r idle id] by blast
  have b: "\<exists>sf gf. runAnimation 100 s g = Some (sf, gf)
             \<and> \<not> isGenerating sf \<and> timers sf = []
             \<and> length (points sf) = length (points s) + 100
             \<and> take (length (points s)) (points sf) = points s
             \<and> setPointsCalls sf = setPointsCalls s + 100
             \<and> animationStep sf = None \<and> highlightedVertices sf = []
             \<and> currentPointRef sf = last (points sf)
             \<and> (\<forall>m. runAnimation (100 + m) s g = Some (sf, gf))"
  proof -
    from runAnimation_finish [OF r idle id, of 0] obtain sf gf where
      f: "runAnimation 100 s g = Some (sf, gf)" "\<not> isGenerating sf" "timers sf = []"
        "length (points sf) = length (points s) + 100"
        "take (length (points s)) (points sf) = points s"
        "setPointsCalls sf = setPointsCalls s + 100"
        "animationStep sf = None" "highlightedVertices sf = []"
        "currentPointRef sf = last (points sf)"
      by blast
    have "\<forall>m. runAnimation (100 + m) s g = Some (sf, gf)"
    proof
      fix m
      from runAnimation_finish [OF r idle id, of m] f(1)
      show "runAnimation (100 + m) s g = Some (sf, gf)" by auto
    qed
    with f show ?thesis by blast
  qed
  have c: "\<forall>count<100. \<exists>tv. step count localCurrent s g =
             Some (s\<lparr>animationStep :=
                       Some \<lparr>currentPoint = localCurrent, targetVertex = tv,
                             newPoint = nextPoint localCurrent tv\<rparr>,
                     highlightedVertices := highlightTick tv (highlightedVertices s),
                     points := points s @ [nextPoint localCurrent tv],
                     setPointsCalls := setPointsCalls s + 1,
                     animationTimeoutRef := Some (nextTimerId s),
                     timers := timers s @
                       [\<lparr>timer_id = nextTimerId s, timer_delay = 100,
                         timer_count = count + 1, timer_local = nextPoint localCurrent tv\<rparr>],
                     nextTimerId := nextTimerId s + 1\<rparr>, drop_rng 1 g)"
  proof (intro allI impI)
    fix count :: nat assume "count < 100"
    moreover from r have "0 \<le> g 0" "g 0 < 1" by simp_all
    ultimately show "\<exists>tv. step count localCurrent s g =
             Some (s\<lparr>animationStep :=
                       Some \<lparr>currentPoint = localCurrent, targetVertex = tv,
                             newPoint = nextPoint localCurrent tv\<rparr>,
                     highlightedVertices := highlightTick tv (highlightedVertices s),
                     points := points s @ [nextPoint localCurrent tv],
                     setPointsCalls := setPointsCalls s + 1,
                     animationTimeoutRef := Some (nextTimerId s),
                     timers := timers s @
                       [\<lparr>timer_id = nextTimerId s, timer_delay = 100,
                         timer_count = count + 1, timer_local = nextPoint localCurrent tv\<rparr>],
                     nextTimerId := nextTimerId s + 1\<rparr>, drop_rng 1 g)"
      using step_count_lt [where g = g and count = count and localCurrent = localCurrent
          and s = s] by blast
  qed
  have d: "step 100 localCurrent s g =
             Some (s\<lparr>isGenerating := False, animationStep := None,
                     highlightedVertices := [], currentPointRef := localCurrent\<rparr>, g)"
    by (rule step_count_ge) simp
  from a b c d show ?thesis by (intro conjI)
qed

theorem animation_run_witness:
  "(\<forall>i. 0 \<le> exampleRng i \<and> exampleRng i < 1)
   \<and> timers exampleState = [] \<and> 0 < nextTimerId exampleState
   \<and> map_option (\<lambda>(s', g'). (isGenerating s', length (points s'), timers s',
                             animationStep s', highlightedVertices s',
                             currentPointRef s' = last (points s')))
        (runAnimation 100 exampleState exampleRng) = Some (False, 100, [], None, [], True)"
proof -
  have r: "\<forall>i. 0 \<le> exampleRng i \<and> exampleRng i < 1" by (simp add: exampleRng_def)
  have i: "timers exampleState = []" "0 < nextTimerId exampleState"
    by (simp_all add: exampleState_simps)
  from animation_run [OF r i] obtain sf gf where
    "runAnimation 100 exampleState exampleRng = Some (sf, gf)"
    "\<not> isGenerating sf" "timers sf = []"
    "length (points sf) = length (points exampleState) + 100"
    "animationStep sf = None" "highlightedVertices sf = []"
    "currentPointRef sf = last (points sf)"
    by blast
  with r i show ?thesis by (simp add: exampleState_simps)
qed

section \<open>Properties of reset\<close>

lemma cancelPending_tracked:
  assumes "timerTracked s"
  shows "cancelPending s =
           s\<lparr>timers := [],
             animationTimeoutRef :=
               (if truthy (animationTimeoutRef s) then None else animationTimeoutRef s)\<rparr>"
proof (cases "timers s")
  case Nil
  then show ?thesis
    by (cases "animationTimeoutRef s") (simp_all add: cancelPending_def clearTimeout_def)
next
  case (Cons t ts)
  with assms have t: "ts = []" "animationTimeoutRef s = Some (timer_id t)" "timer_id t \<noteq> 0"
    by (simp_all add: timerTracked_def)
  then show ?thesis
    by (simp add: cancelPending_def clearTimeout_def truthy_def Cons)
qed

lemma resetState_fields:
  "isGenerating (fst (resetState s g)) = False"
  "points (fst (resetState s g)) = []"
  "animationStep (fst (resetState s g)) = None"
  "highlightedVertices (fst (resetState s g)) = []"
  "timers (fst (resetState s g)) = timers s"
  "currentPointRef (fst (resetState s g)) = fst (getInitialPoint g)"
  "snd (resetState s g) = drop_rng 2 g"
  by (simp_all add: resetState_def getInitialPoint_formula Let_def split: option.splits)

text \<open>
  C9. When the pending timer of a run is the one the ref tracks, \<open>reset\<close> first removes
  it, changing nothing but the timers and the ref, and then clears the state: when it
  returns the controller is not generating and no timer is pending, so that whatever time
  passes afterwards no tick runs and the point collection stays as \<open>reset\<close> left it. With
  no run on its way the cancelling part changes nothing but the ref, which it sets to
  null if it held a stale handle.
\<close>

theorem reset_cancels_pending_tick:
  assumes "timerTracked s"
  shows "reset s g = resetState (cancelPending s) g
       \<and> cancelPending s =
           s\<lparr>timers := [],
             animationTimeoutRef :=
               (if truthy (animationTimeoutRef s) then None else animationTimeoutRef s)\<rparr>
       \<and> timers (cancelPending s) = []
       \<and> \<not> isGenerating (fst (reset s g))
       \<and> timers (fst (reset s g)) = []
       \<and> points (fst (reset s g)) = []
       \<and> animationStep (fst (reset s g)) = None
       \<and> highlightedVertices (fst (reset s g)) = []
       \<and> (\<forall>k h. fireN k (fst (reset s g)) h = Some (fst (reset s g), h))
       \<and> (timers s = [] \<longrightarrow>
            cancelPending s =
              s\<lparr>animationTimeoutRef :=
                  (if truthy (animationTimeoutRef s) then None else animationTimeoutRef s)\<rparr>)
       \<and> (timers s = [] \<and> animationTimeoutRef s = None \<longrightarrow> cancelPending s = s)"
proof -
  note c = cancelPending_tracked [OF assms]
  have a: "reset s g = resetState (cancelPending s) g" by (simp add: reset_def)
  have t: "timers (cancelPending s) = []" by (subst c) simp
  have t': "timers (fst (reset s g)) = []" by (simp add: a resetState_fields t)
  have f: "\<forall>k h. fireN k (fst (reset s g)) h = Some (fst (reset s g), h)"
    using fireN_idle [OF t'] by blast
  have i: "timers s = [] \<longrightarrow>
      cancelPending s =
        s\<lparr>animationTimeoutRef :=
            (if truthy (animationTimeoutRef s) then None else animationTimeoutRef s)\<rparr>"
    by (subst c) simp
  have n: "timers s = [] \<and> animationTimeoutRef s = None \<longrightarrow> cancelPending s = s"
    by (simp add: cancelPending_def truthy_def)
  from a c t t' f i n show ?thesis
    by (simp add: resetState_fields)
qed

theorem reset_cancels_pending_tick_witness:
  "(case runAnimation 3 exampleState exampleRng of
      None \<Rightarrow> False
    | Some (s, g) \<Rightarrow>
        timerTracked s \<and> isGenerating s \<and> length (points s) = 4
        \<and> map timer_count (timers s) = [4]
        \<and> \<not> isGenerating (fst (reset s g))
        \<and> timers (fst (reset s g)) = []
        \<and> points (fst (reset s g)) = []
        \<and> map_option (\<lambda>(s', g'). length (points s')) (fireN 7 (fst (reset s g)) (snd (reset s g)))
            = Some 0)"
proof -
  have r: "\<forall>i. 0 \<le> exampleRng i \<and> exampleRng i < 1" by (simp add: exampleRng_def)
  have i: "timers exampleState = []" "0 < nextTimerId exampleState"
    by (simp_all add: exampleState_simps)
  from runAnimation_ticks [OF r i, of 3] obtain s3 g3 where
    a: "runAnimation 3 exampleState exampleRng = Some (s3, g3)" and
    m: "midRun (3 + 1) s3" and
    l: "length (points s3) = length (points exampleState) + (3 + 1)"
    by auto
  from m obtain t where t: "timers s3 = [t]" "timer_count t = 4" "isGenerating s3"
    by (auto simp: midRun_iff)
  have tr: "timerTracked s3" by (rule midRun_timerTracked [OF m])
  from reset_cancels_pending_tick [OF tr, of g3] have
    x: "\<not> isGenerating (fst (reset s3 g3))" "timers (fst (reset s3 g3)) = []"
       "points (fst (reset s3 g3)) = []"
       "fireN 7 (fst (reset s3 g3)) (snd (reset s3 g3)) = Some (fst (reset s3 g3), snd (reset s3 g3))"
    by blast+
  from x(3,4) have y: "map_option (\<lambda>(s', g'). length (points s'))
      (fireN 7 (fst (reset s3 g3)) (snd (reset s3 g3))) = Some 0"
    by (simp only: option.map prod.case list.size)
  from a t tr l x(1,2,3) y show ?thesis by (simp add: exampleState_simps)
qed

end
